theory Spec2Isabelle
  imports Complex_Main "HOL-Library.Sublist"
begin

section \<open>Strings\<close>

text \<open>
  A JavaScript string is a sequence of code units. The model uses \<^typ>\<open>string\<close>, a list of
  \<^typ>\<open>char\<close>, each \<^typ>\<open>char\<close> standing for one code unit in the range 0..255
  (Basic Latin and Latin-1). The parser only ever compares a code unit with five fixed
  characters, so nothing in it depends on the range.
\<close>

abbreviation dquote :: char where "dquote \<equiv> CHR 0x22"
abbreviation comma :: char where "comma \<equiv> CHR 0x2C"
abbreviation tab :: char where "tab \<equiv> CHR 0x09"
abbreviation cr :: char where "cr \<equiv> CHR 0x0D"
abbreviation lf :: char where "lf \<equiv> CHR 0x0A"

text \<open>\<open>text[n]\<close>: the code unit at index \<open>n\<close>, \<open>None\<close> for \<open>undefined\<close> past the end.\<close>

definition charAt :: "string \<Rightarrow> nat \<Rightarrow> char option" where
  "charAt text n = (if n < length text then Some (text ! n) else None)"

section \<open>parseCSV\<close>

text \<open>The local variables of \<open>parseCSV\<close>.\<close>

record pstate =
  out :: "string list list"
  row :: "string list"
  field :: string
  i :: nat
  inQuotes :: bool

text \<open>
  One pass through the body of the \<open>while\<close> loop, entered with \<open>i < text.length\<close>.
  Each \<open>continue\<close> of the source is the end of a branch here.
\<close>

definition step :: "string \<Rightarrow> pstate \<Rightarrow> pstate" where
  "step text s =
     (let char = text ! i s in
      if char = dquote then
        (if inQuotes s \<and> charAt text (i s + 1) = Some dquote
         then s\<lparr>field := field s @ [dquote], i := i s + 2\<rparr>
         else s\<lparr>i := i s + 1, inQuotes := \<not> inQuotes s\<rparr>)
      else if \<not> inQuotes s \<and> (char = comma \<or> char = tab) then
        s\<lparr>row := row s @ [field s], field := [], i := i s + 1\<rparr>
      else if \<not> inQuotes s \<and> (char = cr \<or> char = lf) then
        (let s1 = (if field s \<noteq> [] \<or> row s \<noteq> []
                   then s\<lparr>out := out s @ [row s @ [field s]], row := [], field := []\<rparr>
                   else s);
             s2 = (if char = cr \<and> charAt text (i s + 1) = Some lf
                   then s1\<lparr>i := i s1 + 1\<rparr> else s1)
         in s2\<lparr>i := i s2 + 1\<rparr>)
      else s\<lparr>field := field s @ [char], i := i s + 1\<rparr>)"

text \<open>
  The \<open>while\<close> loop. Nothing in its form bounds the number of passes, so it is a partial
  function: \<open>None\<close> would be a loop that never exits.
\<close>

partial_function (option) parseLoop :: "string \<Rightarrow> pstate \<Rightarrow> pstate option" where
  "parseLoop text s = (if i s < length text then parseLoop text (step text s) else Some s)"

text \<open>The statements after the loop: flush the row in progress and return \<open>out\<close>.\<close>

definition flush :: "pstate \<Rightarrow> string list list" where
  "flush s = (if field s \<noteq> [] \<or> row s \<noteq> [] then out s @ [row s @ [field s]] else out s)"

definition initial :: pstate where
  "initial = \<lparr>out = [], row = [], field = [], i = 0, inQuotes = False\<rparr>"

definition parseCSV :: "string \<Rightarrow> string list list option" where
  "parseCSV text = map_option flush (parseLoop text initial)"

section \<open>toObjects\<close>






section \<open>normalize and lower\<close>

text \<open>
  \<open>String.prototype.trim\<close> removes white space and line terminators from both ends. Among the
  code units below 256 these are TAB, LF, VT, FF, CR, SP and NBSP.
\<close>

definition isWhiteSpace :: "char \<Rightarrow> bool" where
  "isWhiteSpace c =
     (c \<in> set [CHR 0x09, CHR 0x0A, CHR 0x0B, CHR 0x0C, CHR 0x0D, CHR 0x20, CHR 0xA0])"

definition trim :: "string \<Rightarrow> string" where
  "trim s = rev (dropWhile isWhiteSpace (rev (dropWhile isWhiteSpace s)))"

text \<open>
  \<open>String.prototype.toLowerCase\<close> on code units below 256: the letters A to Z and the Latin-1
  capitals (0xC0 to 0xDE without the multiplication sign 0xD7) move up by 32, every other code
  unit stays.
\<close>

definition upperCaseLetters :: string where
  "upperCaseLetters = ''ABCDEFGHIJKLMNOPQRSTUVWXYZ'' @
     [CHR 0xC0, CHR 0xC1, CHR 0xC2, CHR 0xC3, CHR 0xC4, CHR 0xC5, CHR 0xC6, CHR 0xC7,
      CHR 0xC8, CHR 0xC9, CHR 0xCA, CHR 0xCB, CHR 0xCC, CHR 0xCD, CHR 0xCE, CHR 0xCF,
      CHR 0xD0, CHR 0xD1, CHR 0xD2, CHR 0xD3, CHR 0xD4, CHR 0xD5, CHR 0xD6,
      CHR 0xD8, CHR 0xD9, CHR 0xDA, CHR 0xDB, CHR 0xDC, CHR 0xDD, CHR 0xDE]"

definition lowerCaseLetters :: string where
  "lowerCaseLetters = ''abcdefghijklmnopqrstuvwxyz'' @
     [CHR 0xE0, CHR 0xE1, CHR 0xE2, CHR 0xE3, CHR 0xE4, CHR 0xE5, CHR 0xE6, CHR 0xE7,
      CHR 0xE8, CHR 0xE9, CHR 0xEA, CHR 0xEB, CHR 0xEC, CHR 0xED, CHR 0xEE, CHR 0xEF,
      CHR 0xF0, CHR 0xF1, CHR 0xF2, CHR 0xF3, CHR 0xF4, CHR 0xF5, CHR 0xF6,
      CHR 0xF8, CHR 0xF9, CHR 0xFA, CHR 0xFB, CHR 0xFC, CHR 0xFD, CHR 0xFE]"

definition toLowerCase :: "string \<Rightarrow> string" where
  "toLowerCase s =
     map (\<lambda>c. case map_of (zip upperCaseLetters lowerCaseLetters) c of
                 None \<Rightarrow> c | Some d \<Rightarrow> d) s"

text \<open>
  \<open>normalize(s)\<close> is \<open>String(s || "").trim()\<close>; the constant is \<open>normalize_js\<close>, the
  name \<open>normalize\<close> being taken in HOL. Its argument is a string or \<open>undefined\<close>
  (a property that a row object does not have), written \<open>Some s\<close> and \<open>None\<close>.
\<close>

definition normalize_js :: "string option \<Rightarrow> string" where
  "normalize_js s = trim (case s of None \<Rightarrow> [] | Some v \<Rightarrow> v)"

definition lower :: "string option \<Rightarrow> string" where
  "lower s = toLowerCase (normalize_js s)"

section \<open>resolveColumns\<close>

datatype role = Class | Division | Roll

text \<open>The property names \<open>"class"\<close>, \<open>"division"\<close> and \<open>"roll"\<close> of \<open>found\<close> and \<open>aliases\<close>.\<close>

fun key :: "role \<Rightarrow> string" where
  "key Class = ''class''"
| "key Division = ''division''"
| "key Roll = ''roll''"

text \<open>
  An object with exactly these three properties is a function on \<^typ>\<open>role\<close>: the alias
  configuration maps a role to its list of candidates, \<open>found\<close> maps it to a header or to
  \<open>null\<close> (\<open>None\<close>).
\<close>

type_synonym aliases = "role \<Rightarrow> string list"
type_synonym found = "role \<Rightarrow> string option"

definition COLUMN_ALIASES :: aliases where
  "COLUMN_ALIASES k =
     (case k of
        Class \<Rightarrow> [''class'', ''std'', ''grade'']
      | Division \<Rightarrow> [''division'', ''div'', ''section'']
      | Roll \<Rightarrow> [''roll'', ''rollno'', ''roll no'', ''roll number'', ''roll_number''])"

text \<open>\<open>xs.indexOf(x)\<close>: the first index holding \<open>x\<close>; \<open>None\<close> for \<open>-1\<close>.\<close>

fun indexOf :: "'a list \<Rightarrow> 'a \<Rightarrow> nat option" where
  "indexOf [] x = None"
| "indexOf (y # ys) x = (if y = x then Some 0 else map_option Suc (indexOf ys x))"

text \<open>\<open>s.includes(k)\<close>: \<open>k\<close> occurs in \<open>s\<close> as a run of consecutive code units.\<close>

fun stringIncludes :: "string \<Rightarrow> string \<Rightarrow> bool" where
  "stringIncludes [] k = (k = [])"
| "stringIncludes (c # cs) k = (prefix k (c # cs) \<or> stringIncludes cs k)"

text \<open>
  The inner loop over \<open>aliases[key]\<close>, with the value of \<open>found[key]\<close> after it: the header
  at the index of the first candidate that \<open>lowerHeaders\<close> holds (\<open>break\<close>), \<open>null\<close> when the
  loop runs to its end. The candidate is looked up as it is written in the configuration.
\<close>

fun aliasLoop :: "string list \<Rightarrow> string list \<Rightarrow> string list \<Rightarrow> string option" where
  "aliasLoop hdrs lowerHeaders [] = None"
| "aliasLoop hdrs lowerHeaders (candidate # rest) =
     (case indexOf lowerHeaders candidate of
        Some n \<Rightarrow> Some (hdrs ! n)
      | None \<Rightarrow> aliasLoop hdrs lowerHeaders rest)"

text \<open>JavaScript truthiness of a string or \<open>null\<close>/\<open>undefined\<close>: neither absent nor empty.\<close>

fun truthy :: "string option \<Rightarrow> bool" where
  "truthy None = False"
| "truthy (Some s) = (s \<noteq> [])"

text \<open>
  One pass of the outer loop for the role \<open>k\<close>: the alias loop, then the fallback
  \<open>if (!found[key]) { const match = headers.find(...); if (match) found[key] = match; }\<close>.
\<close>

definition resolveRole :: "string list \<Rightarrow> string list \<Rightarrow> aliases \<Rightarrow> role \<Rightarrow> string option" where
  "resolveRole hdrs lowerHeaders als k =
     (let f = aliasLoop hdrs lowerHeaders (als k) in
      if truthy f then f
      else (let match = find (\<lambda>h. stringIncludes (lower (Some h)) (key k)) hdrs
            in if truthy match then match else f))"

definition resolveColumns :: "string list \<Rightarrow> aliases \<Rightarrow> found" where
  "resolveColumns hdrs als =
     (let lowerHeaders = map (\<lambda>h. lower (Some h)) hdrs
      in foldl (\<lambda>fnd k. fnd(k := resolveRole hdrs lowerHeaders als k))
           (\<lambda>_. None) [Class, Division, Roll])"

section \<open>uniqueSorted\<close>











section \<open>The selection handlers\<close>







section \<open>Auxiliary definitions\<close>

text \<open>
  The same scan as a structural recursion over the input still to be read, carrying the four
  variables other than the index. It is a device of the proofs below; \<open>parseLoop_scan\<close>
  shows that the loop computes it. \<open>body c nxt v\<close> is one pass of the loop at the code unit
  \<open>c\<close> with \<open>nxt\<close> the code unit after it; the flag says that the pass consumed both.
\<close>

type_synonym vars = "string list list \<times> string list \<times> string \<times> bool"

definition vars :: "pstate \<Rightarrow> vars" where
  "vars s = (out s, row s, field s, inQuotes s)"

definition body :: "char \<Rightarrow> char option \<Rightarrow> vars \<Rightarrow> vars \<times> bool" where
  "body c nxt v =
     (case v of (ou, ro, fi, q) \<Rightarrow>
      if c = dquote then
        (if q \<and> nxt = Some dquote then ((ou, ro, fi @ [dquote], q), True)
         else ((ou, ro, fi, \<not> q), False))
      else if \<not> q \<and> (c = comma \<or> c = tab) then ((ou, ro @ [fi], [], q), False)
      else if \<not> q \<and> (c = cr \<or> c = lf) then
        (if fi \<noteq> [] \<or> ro \<noteq> [] then (ou @ [ro @ [fi]], [], [], q) else (ou, ro, fi, q),
         c = cr \<and> nxt = Some lf)
      else ((ou, ro, fi @ [c], q), False))"

fun scan :: "string \<Rightarrow> vars \<Rightarrow> vars" where
  "scan [] v = v"
| "scan [c] v = fst (body c None v)"
| "scan (c # d # ds) v =
     (case body c (Some d) v of (v', two) \<Rightarrow> if two then scan ds v' else scan (d # ds) v')"

definition exitState :: "string \<Rightarrow> vars \<Rightarrow> pstate" where
  "exitState text v =
     (case v of (ou, ro, fi, q) \<Rightarrow>
        \<lparr>out = ou, row = ro, field = fi, i = length text, inQuotes = q\<rparr>)"

definition finish :: "vars \<Rightarrow> string list list" where
  "finish v = (case v of (ou, ro, fi, q) \<Rightarrow> if fi \<noteq> [] \<or> ro \<noteq> [] then ou @ [ro @ [fi]] else ou)"

text \<open>
  Modelled from the spec: the repository has no serializer. The round-trip property of the
  spec speaks of the comma-and-newline serialization of a matrix: the cells of a row joined
  by commas, the rows joined by line feeds, nothing quoted.
\<close>

fun join :: "'a list \<Rightarrow> 'a list list \<Rightarrow> 'a list" where
  "join sep [] = []"
| "join sep [x] = x"
| "join sep (x # y # ys) = x @ sep @ join sep (y # ys)"

definition serialize :: "string list list \<Rightarrow> string" where
  "serialize matrix = join [lf] (map (join [comma]) matrix)"

text \<open>A cell free of delimiters: no comma, tab, double quote, carriage return or line feed.\<close>

definition plainCell :: "string \<Rightarrow> bool" where
  "plainCell c = (\<forall>ch \<in> set c. ch \<notin> {comma, tab, dquote, cr, lf})"







section \<open>The loop computes the scan\<close>

lemma step_body:
  assumes "i s < length text"
  shows "body (text ! i s) (charAt text (i s + 1)) (vars s)
           = (vars (step text s), i (step text s) = i s + 2)"
  using assms by (auto simp: step_def body_def vars_def Let_def)

lemma step_i:
  assumes "i s < length text"
  shows "i (step text s) = i s + 1 \<or> (i (step text s) = i s + 2 \<and> i s + 1 < length text)"
  using assms by (auto simp: step_def Let_def charAt_def split: if_splits)

lemma scan_Cons:
  "scan (c # cs) v =
     (case body c (case cs of [] \<Rightarrow> None | d # _ \<Rightarrow> Some d) v of
        (v', two) \<Rightarrow> scan (if two then tl cs else cs) v')"
proof (cases cs)
  case Nil
  have "\<not> snd (body c None v)" by (auto simp: body_def split: prod.splits)
  with Nil show ?thesis by (simp split: prod.splits)
next
  case (Cons d ds)
  then show ?thesis by (simp split: prod.splits)
qed

lemma exitState_self: "i s = length text \<Longrightarrow> exitState text (vars s) = s"
  by (simp add: exitState_def vars_def)

lemma parseLoop_scan:
  "i s \<le> length text \<Longrightarrow>
     parseLoop text s = Some (exitState text (scan (drop (i s) text) (vars s)))"
proof (induction "length text - i s" arbitrary: s rule: less_induct)
  case less
  show ?case
  proof (cases "i s < length text")
    case False
    with less.prems have "i s = length text" by simp
    then show ?thesis by (subst parseLoop.simps) (simp add: exitState_self)
  next
    case True
    let ?s' = "step text s"
    have b: "body (text ! i s) (charAt text (Suc (i s))) (vars s)
               = (vars ?s', i ?s' = Suc (Suc (i s)))"
      using step_body[OF True] by simp
    have adv: "i ?s' = i s + 1 \<or> (i ?s' = i s + 2 \<and> i s + 1 < length text)"
      by (rule step_i[OF True])
    have d: "drop (i s) text = text ! i s # drop (Suc (i s)) text"
      using True by (simp add: Cons_nth_drop_Suc)
    have nxt: "(case drop (Suc (i s)) text of [] \<Rightarrow> None | d # _ \<Rightarrow> Some d)
                 = charAt text (Suc (i s))"
      by (cases "Suc (i s) < length text") (simp_all add: charAt_def Cons_nth_drop_Suc[symmetric])
    have sc: "scan (drop (i s) text) (vars s) = scan (drop (i ?s') text) (vars ?s')"
      using adv by (auto simp: d scan_Cons nxt b drop_Suc[symmetric] tl_drop)
    have "parseLoop text s = parseLoop text ?s'"
      using True by (subst parseLoop.simps) simp
    also have "\<dots> = Some (exitState text (scan (drop (i ?s') text) (vars ?s')))"
      using adv True by (intro less.hyps) auto
    finally show ?thesis by (simp add: sc)
  qed
qed

lemma parseLoop_initial:
  "parseLoop text initial = Some (exitState text (scan text ([], [], [], False)))"
  using parseLoop_scan[of initial "text"] by (simp add: initial_def vars_def)

lemma flush_exitState: "flush (exitState text v) = finish v"
  by (simp add: flush_def finish_def exitState_def split: prod.splits)

lemma parseCSV_scan: "parseCSV text = Some (finish (scan text ([], [], [], False)))"
  by (simp add: parseCSV_def parseLoop_initial flush_exitState)

section \<open>Facts about the scan\<close>

lemma body_plain:
  "c \<noteq> dquote \<Longrightarrow> body c nxt (ou, ro, fi, True) = ((ou, ro, fi @ [c], True), False)"
  by (simp add: body_def)

lemma scan_quoted:
  "dquote \<notin> set rest \<Longrightarrow> scan rest (ou, ro, fi, True) = (ou, ro, fi @ rest, True)"
proof (induction rest arbitrary: fi)
  case Nil
  then show ?case by simp
next
  case (Cons c rest)
  then have "c \<noteq> dquote" and "dquote \<notin> set rest" by auto
  then show ?case using Cons.IH by (simp add: scan_Cons body_plain)
qed

lemma body_None_one: "\<not> snd (body c None v)"
  by (auto simp: body_def split: prod.splits)

lemma body_same_lookahead:
  "c \<noteq> dquote \<Longrightarrow> c = cr \<longrightarrow> nxt \<noteq> Some lf \<Longrightarrow> body c nxt v = (fst (body c None v), False)"
  by (auto simp: body_def split: prod.splits)

text \<open>
  The scan of \<open>t @ X\<close> is the scan of \<open>X\<close> from where the scan of \<open>t\<close> ends, unless the
  last code unit of \<open>t\<close> looks ahead into \<open>X\<close>: a double quote does, and a carriage
  return does when a line feed follows.
\<close>

lemma scan_append:
  "t = [] \<or> (last t \<noteq> dquote \<and> (last t = cr \<longrightarrow> (case X of [] \<Rightarrow> True | x # _ \<Rightarrow> x \<noteq> lf)))
     \<Longrightarrow> scan (t @ X) v = scan X (scan t v)"
proof (induction t v rule: scan.induct)
  case (1 v)
  then show ?case by simp
next
  case (2 c v)
  then have c: "c \<noteq> dquote"
    and n: "c = cr \<longrightarrow> (case X of [] \<Rightarrow> None | x # _ \<Rightarrow> Some x) \<noteq> Some lf"
    by (auto split: list.splits)
  have "scan (c # X) v = scan X (fst (body c None v))"
    by (simp add: scan_Cons[of c X] body_same_lookahead[OF c n])
  then show ?case by simp
next
  case (3 c d ds v)
  have l: "ds = [] \<or> (last ds \<noteq> dquote \<and>
             (last ds = cr \<longrightarrow> (case X of [] \<Rightarrow> True | x # _ \<Rightarrow> x \<noteq> lf)))"
    using 3(3) by (auto split: if_splits)
  have l': "d # ds = [] \<or> (last (d # ds) \<noteq> dquote \<and>
             (last (d # ds) = cr \<longrightarrow> (case X of [] \<Rightarrow> True | x # _ \<Rightarrow> x \<noteq> lf)))"
    using 3(3) by (auto split: if_splits)
  show ?case
  proof (cases "body c (Some d) v")
    case (Pair v' two)
    show ?thesis
    proof (cases two)
      case True
      with Pair 3(1)[OF Pair[symmetric] _ l] show ?thesis by simp
    next
      case False
      with Pair 3(2)[OF Pair[symmetric] _ l'] show ?thesis by simp
    qed
  qed
qed

text \<open>After a line feed that leaves the scan outside quotes, the row and the field are empty.\<close>

lemma scan_line_end:
  "snd (snd (snd (scan (a @ [lf]) v))) = False \<Longrightarrow>
     \<exists>ou'. scan (a @ [lf]) v = (ou', [], [], False)"
proof (induction a v rule: scan.induct)
  case (1 v)
  then show ?case by (auto simp: body_def split: prod.splits if_splits)
next
  case (2 c v)
  then show ?case by (auto simp: body_def split: prod.splits if_splits)
next
  case (3 c d ds v)
  show ?case
  proof (cases "body c (Some d) v")
    case (Pair v' two)
    show ?thesis
    proof (cases two)
      case True
      with Pair 3(1)[OF Pair[symmetric]] 3(3) show ?thesis by simp
    next
      case False
      with Pair 3(2)[OF Pair[symmetric]] 3(3) show ?thesis by simp
    qed
  qed
qed

lemma scan_blank_lf: "scan (lf # X) (ou, [], [], False) = scan X (ou, [], [], False)"
  by (simp add: scan_Cons body_def)

lemma exitState_inQuotes: "inQuotes (exitState t v) = snd (snd (snd v))"
  by (simp add: exitState_def split: prod.splits)

lemma scan_open_quote:
  "dquote \<notin> set rest \<Longrightarrow> scan (dquote # rest) (ou, ro, fi, False) = (ou, ro, fi @ rest, True)"
  by (simp add: scan_Cons body_def scan_quoted)

lemma rows_nonempty_scan:
  "\<forall>r \<in> set (fst v). r \<noteq> [] \<Longrightarrow> \<forall>r \<in> set (fst (scan t v)). r \<noteq> []"
proof (induction t v rule: scan.induct)
  case (1 v)
  then show ?case by simp
next
  case (2 c v)
  then show ?case by (auto simp: body_def split: prod.splits if_splits)
next
  case (3 c d ds v)
  have "\<forall>r \<in> set (fst (fst (body c (Some d) v))). r \<noteq> []"
    using 3(3) by (auto simp: body_def split: prod.splits if_splits)
  then show ?case using 3(1,2) by (auto split: prod.splits)
qed

lemma rows_nonempty_finish:
  "\<forall>r \<in> set (fst v). r \<noteq> [] \<Longrightarrow> \<forall>r \<in> set (finish v). r \<noteq> []"
  by (auto simp: finish_def split: prod.splits if_splits)

lemma blank_line_anywhere:
  assumes "parseLoop (a @ [lf]) initial = Some s" and "\<not> inQuotes s"
  shows "parseCSV (a @ [lf] @ [lf] @ b) = parseCSV (a @ [lf] @ b)"
proof -
  let ?v0 = "([], [], [], False) :: vars"
  have "snd (snd (snd (scan (a @ [lf]) ?v0))) = False"
    using assms by (auto simp: parseLoop_initial exitState_inQuotes)
  then obtain ou' where v: "scan (a @ [lf]) ?v0 = (ou', [], [], False)"
    using scan_line_end by blast
  have "scan ((a @ [lf]) @ lf # b) ?v0 = scan (lf # b) (scan (a @ [lf]) ?v0)"
    by (rule scan_append) simp
  also have "\<dots> = scan b (scan (a @ [lf]) ?v0)" by (simp add: v scan_blank_lf)
  also have "\<dots> = scan ((a @ [lf]) @ b) ?v0"
    by (rule scan_append[symmetric]) simp
  finally show ?thesis by (simp add: parseCSV_scan)
qed

lemma unterminated_quote:
  assumes "pre = [] \<or> last pre \<noteq> dquote" and "dquote \<notin> set rest"
    and "parseLoop pre initial = Some s" and "\<not> inQuotes s"
  shows "parseCSV (pre @ dquote # rest) = Some (flush (s\<lparr>field := field s @ rest\<rparr>))"
proof -
  obtain ou ro fi q where v: "scan pre ([], [], [], False) = (ou, ro, fi, q)"
    by (cases "scan pre ([], [], [], False)") auto
  have s: "s = exitState pre (ou, ro, fi, q)" using assms(3) v by (simp add: parseLoop_initial)
  then have "q = False" using assms(4) by (simp add: exitState_inQuotes)
  have "scan (pre @ dquote # rest) ([], [], [], False)
          = scan (dquote # rest) (scan pre ([], [], [], False))"
    using assms(1) by (intro scan_append) auto
  then have "scan (pre @ dquote # rest) ([], [], [], False) = (ou, ro, fi @ rest, True)"
    using assms(2) v \<open>q = False\<close> by (simp add: scan_open_quote)
  then show ?thesis
    by (simp add: parseCSV_scan s exitState_def flush_def finish_def)
qed

lemma scan_quoted_prefix:
  "dquote \<notin> set x \<Longrightarrow> scan (x @ rest) (ou, ro, fi, True) = scan rest (ou, ro, fi @ x, True)"
proof (induction x arbitrary: fi)
  case Nil
  then show ?case by simp
next
  case (Cons c x)
  then have "c \<noteq> dquote" and "dquote \<notin> set x" by auto
  then show ?case using Cons.IH by (simp add: scan_Cons body_plain)
qed

lemma scan_escaped:
  "scan (dquote # dquote # rest) (ou, ro, fi, True) = scan rest (ou, ro, fi @ [dquote], True)"
  by (simp add: body_def)

lemma quoted_field_with_escape:
  assumes "dquote \<notin> set x" and "dquote \<notin> set y"
  shows "parseCSV (dquote # x @ [dquote, dquote] @ y @ [dquote]) = Some [[x @ [dquote] @ y]]"
proof -
  have "scan (dquote # x @ [dquote, dquote] @ y @ [dquote]) ([], [], [], False)
          = scan (x @ dquote # dquote # y @ [dquote]) ([], [], [], True)"
    by (cases x) (simp_all add: body_def)
  also have "\<dots> = scan (dquote # dquote # y @ [dquote]) ([], [], x, True)"
    using assms(1) by (simp add: scan_quoted_prefix)
  also have "\<dots> = scan (y @ [dquote]) ([], [], x @ [dquote], True)"
    by (rule scan_escaped)
  also have "\<dots> = scan [dquote] ([], [], x @ [dquote] @ y, True)"
    using assms(2) by (simp add: scan_quoted_prefix)
  also have "\<dots> = ([], [], x @ [dquote] @ y, False)"
    by (simp add: body_def)
  finally show ?thesis by (simp add: parseCSV_scan finish_def)
qed

section \<open>The parser: escaped quotes, blank lines, termination\<close>

text \<open>
  Claim C5. In a pass of the loop that is inside quotes and stands at a double quote with
  another double quote right after it, the field gains one double quote, the index moves
  past both code units, and nothing else changes. So a quoted field with one doubled quote
  inside, and no other quote, parses to one row with one field that holds a single quote in
  its place. The input \<open>"he said ""hi"""\<close> parses to one row with the one field
  \<open>he said "hi"\<close>.
\<close>

theorem C5_escaped_quote:
  "(i s < length text \<and> inQuotes s \<and> text ! i s = dquote \<and> charAt text (i s + 1) = Some dquote
      \<longrightarrow> step text s = s\<lparr>field := field s @ [dquote], i := i s + 2\<rparr>) \<and>
   (dquote \<notin> set x \<and> dquote \<notin> set y
      \<longrightarrow> parseCSV (dquote # x @ [dquote, dquote] @ y @ [dquote]) = Some [[x @ [dquote] @ y]]) \<and>
   parseCSV ([dquote] @ ''he said '' @ [dquote, dquote] @ ''hi'' @ [dquote, dquote, dquote])
     = Some [[''he said '' @ [dquote] @ ''hi'' @ [dquote]]]"
proof -
  have 1: "i s < length text \<and> inQuotes s \<and> text ! i s = dquote \<and>
      charAt text (i s + 1) = Some dquote
      \<longrightarrow> step text s = s\<lparr>field := field s @ [dquote], i := i s + 2\<rparr>"
    by (simp add: step_def)
  have 2: "dquote \<notin> set x \<and> dquote \<notin> set y
      \<longrightarrow> parseCSV (dquote # x @ [dquote, dquote] @ y @ [dquote]) = Some [[x @ [dquote] @ y]]"
    using quoted_field_with_escape[of x y] by blast
  have 3: "parseCSV ([dquote] @ ''he said '' @ [dquote, dquote] @ ''hi'' @ [dquote, dquote, dquote])
     = Some [[''he said '' @ [dquote] @ ''hi'' @ [dquote]]]"
    by (simp add: parseCSV_scan body_def finish_def)
  from 1 2 3 show ?thesis by (intro conjI)
qed

theorem C5_escaped_quote_witness:
  "step [dquote, dquote] \<lparr>out = [], row = [], field = ''a'', i = 0, inQuotes = True\<rparr>
     = \<lparr>out = [], row = [], field = ''a'' @ [dquote], i = 2, inQuotes = True\<rparr> \<and>
   parseCSV (dquote # ''a,b'' @ [dquote, dquote] @ ''c'' @ [dquote]) = Some [[''a,b'' @ [dquote] @ ''c'']]"
proof -
  let ?s = "\<lparr>out = [], row = [], field = ''a'', i = 0, inQuotes = True\<rparr>"
  note c = C5_escaped_quote[of ?s "[dquote, dquote]" "''a,b''" "''c''"]
  have h: "i ?s < length [dquote, dquote] \<and> inQuotes ?s \<and> [dquote, dquote] ! i ?s = dquote \<and>
      charAt [dquote, dquote] (i ?s + 1) = Some dquote"
    by (simp add: charAt_def)
  have q: "dquote \<notin> set ''a,b'' \<and> dquote \<notin> set ''c''" by simp
  from c h have "step [dquote, dquote] ?s = ?s\<lparr>field := field ?s @ [dquote], i := i ?s + 2\<rparr>"
    by blast
  moreover from c q
  have "parseCSV (dquote # ''a,b'' @ [dquote, dquote] @ ''c'' @ [dquote]) = Some [[''a,b'' @ [dquote] @ ''c'']]"
    by blast
  ultimately show ?thesis by simp
qed

text \<open>
  Claim C8. \<open>parseCSV\<close> returns a result for every input: the loop always exits. An
  unterminated quote takes the rest of the input into the current field: when the input up
  to a double quote leaves the parser outside quotes (and does not itself end in a double
  quote, which would pair with this one) and no double quote follows, the result is the
  flush of the state reached at that quote with the whole remainder appended to its field.
  So the end-of-input flush applies as it does everywhere.
\<close>

theorem C8_terminates_unterminated_quote:
  "(\<exists>rows. parseCSV text = Some rows) \<and>
   ((pre = [] \<or> last pre \<noteq> dquote) \<and> dquote \<notin> set rest \<and>
    parseLoop pre initial = Some s \<and> \<not> inQuotes s
      \<longrightarrow> parseCSV (pre @ dquote # rest) = Some (flush (s\<lparr>field := field s @ rest\<rparr>)))"
  using unterminated_quote[of pre rest s] by (simp add: parseCSV_scan)

theorem C8_terminates_unterminated_quote_witness:
  "parseCSV ((dquote # ''x,y'' @ [dquote] @ '',a'' @ [lf] @ ''b,'') @ dquote # ''c,d'' @ [lf] @ ''e'')
     = Some [[''x,y'', ''a''], [''b'', ''c,d'' @ [lf] @ ''e'']]"
proof -
  let ?pre = "dquote # ''x,y'' @ [dquote] @ '',a'' @ [lf] @ ''b,''"
  let ?s = "\<lparr>out = [[''x,y'', ''a'']], row = [''b''], field = [], i = 10, inQuotes = False\<rparr>"
  have p: "parseLoop ?pre initial = Some ?s"
    by (simp add: parseLoop_initial exitState_def body_def)
  have l: "(?pre = [] \<or> last ?pre \<noteq> dquote) \<and> dquote \<notin> set (''c,d'' @ [lf] @ ''e'') \<and> \<not> inQuotes ?s"
    by simp
  show ?thesis
    using C8_terminates_unterminated_quote[of "[]" ?pre "''c,d'' @ [lf] @ ''e''" ?s] p l
    by (simp add: flush_def)
qed

text \<open>
  Claim C9. A pass of the loop that is outside quotes and stands at a carriage return or a
  line feed while the field is empty and the row has no cells appends no row: \<open>out\<close>, the
  row and the field stay as they are and the index moves on. So a blank line yields no row
  wherever it stands: a line feed right after a line feed that left the parser outside
  quotes does not change the result, whatever precedes and follows. The input \<open>a\n\nb\<close>
  parses to the two rows \<open>a\<close> and \<open>b\<close>.
\<close>

theorem C9_blank_lines_suppressed:
  "(i s < length text \<and> \<not> inQuotes s \<and> (text ! i s = cr \<or> text ! i s = lf) \<and>
      field s = [] \<and> row s = []
      \<longrightarrow> out (step text s) = out s \<and> row (step text s) = [] \<and> field (step text s) = [] \<and>
          \<not> inQuotes (step text s) \<and> i s < i (step text s)) \<and>
   (parseLoop (a @ [lf]) initial = Some s' \<and> \<not> inQuotes s'
      \<longrightarrow> parseCSV (a @ [lf] @ [lf] @ b) = parseCSV (a @ [lf] @ b)) \<and>
   parseCSV (''a'' @ [lf, lf] @ ''b'') = Some [[''a''], [''b'']]"
proof -
  have 1: "i s < length text \<and> \<not> inQuotes s \<and> (text ! i s = cr \<or> text ! i s = lf) \<and>
      field s = [] \<and> row s = []
      \<longrightarrow> out (step text s) = out s \<and> row (step text s) = [] \<and> field (step text s) = [] \<and>
          \<not> inQuotes (step text s) \<and> i s < i (step text s)"
    by (auto simp: step_def Let_def)
  have 2: "parseLoop (a @ [lf]) initial = Some s' \<and> \<not> inQuotes s'
      \<longrightarrow> parseCSV (a @ [lf] @ [lf] @ b) = parseCSV (a @ [lf] @ b)"
    using blank_line_anywhere[of a s' b] by blast
  have 3: "parseCSV (''a'' @ [lf, lf] @ ''b'') = Some [[''a''], [''b'']]"
    by (simp add: parseCSV_scan body_def finish_def)
  from 1 2 3 show ?thesis by (intro conjI)
qed

theorem C9_blank_lines_suppressed_witness:
  "out (step (''a'' @ [lf, lf] @ ''b'')
      \<lparr>out = [[''a'']], row = [], field = [], i = 2, inQuotes = False\<rparr>) = [[''a'']] \<and>
   parseCSV (''a,b'' @ [lf] @ [lf] @ ''c'') = parseCSV (''a,b'' @ [lf] @ ''c'') \<and>
   parseCSV (''a,b'' @ [lf] @ ''c'') = Some [[''a'', ''b''], [''c'']]"
proof -
  let ?s = "\<lparr>out = [[''a'']], row = [], field = [], i = 2, inQuotes = False\<rparr>"
  let ?s' = "\<lparr>out = [[''a'', ''b'']], row = [], field = [], i = 4, inQuotes = False\<rparr>"
  have p: "parseLoop (''a,b'' @ [lf]) initial = Some ?s'"
    by (simp add: parseLoop_initial exitState_def body_def)
  have e: "parseCSV (''a,b'' @ [lf] @ ''c'') = Some [[''a'', ''b''], [''c'']]"
    by (simp add: parseCSV_scan body_def finish_def)
  note c = C9_blank_lines_suppressed[of ?s "''a'' @ [lf, lf] @ ''b''" "''a,b''" ?s' "''c''"]
  from c have "out (step (''a'' @ [lf, lf] @ ''b'') ?s) = [[''a'']]" by simp
  moreover from c p have "parseCSV (''a,b'' @ [lf] @ [lf] @ ''c'') = parseCSV (''a,b'' @ [lf] @ ''c'')"
    by simp
  ultimately show ?thesis using e by simp
qed

text \<open>
  Claim C10. For every input, \<open>parseCSV\<close> returns rows that each hold at least one cell.
\<close>

theorem C10_rows_nonempty:
  "\<exists>rows. parseCSV text = Some rows \<and> (\<forall>r \<in> set rows. r \<noteq> [])"
proof -
  have "\<forall>r \<in> set (finish (scan text ([], [], [], False))). r \<noteq> []"
    by (intro rows_nonempty_finish rows_nonempty_scan) simp
  then show ?thesis by (simp add: parseCSV_scan)
qed

theorem C10_rows_nonempty_witness:
  "parseCSV (''a,b'' @ [lf] @ '',c'') = Some [[''a'', ''b''], ['''', ''c'']] \<and>
   [''a'', ''b''] \<noteq> [] \<and> ['''', ''c''] \<noteq> ([] :: string list)"
  using C10_rows_nonempty[of "''a,b'' @ [lf] @ '',c''"]
  by (simp add: parseCSV_scan body_def finish_def)

section \<open>The round trip through the serialization\<close>

lemma body_ordinary:
  "c \<notin> {comma, tab, dquote, cr, lf} \<Longrightarrow>
     body c nxt (ou, ro, fi, q) = ((ou, ro, fi @ [c], q), False)"
  by (simp add: body_def)

lemma scan_plainCell:
  "plainCell c \<Longrightarrow> scan (c @ rest) (ou, ro, fi, False) = scan rest (ou, ro, fi @ c, False)"
proof (induction c arbitrary: fi)
  case Nil
  then show ?case by simp
next
  case (Cons ch c)
  then have ch: "ch \<notin> {comma, tab, dquote, cr, lf}" and c: "plainCell c"
    by (simp_all add: plainCell_def)
  show ?case using Cons.IH[OF c] by (simp add: scan_Cons body_ordinary[OF ch])
qed

lemma scan_comma:
  "scan (comma # rest) (ou, ro, fi, False) = scan rest (ou, ro @ [fi], [], False)"
  by (simp add: scan_Cons body_def)

lemma scan_lf:
  "fi \<noteq> [] \<or> ro \<noteq> [] \<Longrightarrow>
     scan (lf # rest) (ou, ro, fi, False) = scan rest (ou @ [ro @ [fi]], [], [], False)"
  by (auto simp add: scan_Cons body_def)

lemma scan_row:
  "r \<noteq> [] \<Longrightarrow> \<forall>c \<in> set r. plainCell c \<Longrightarrow>
     scan (join [comma] r @ rest) (ou, ro, [], False)
       = scan rest (ou, ro @ butlast r, last r, False)"
proof (induction "[comma]" r arbitrary: ro rule: join.induct)
  case 1
  then show ?case by simp
next
  case (2 x)
  then show ?case by (simp add: scan_plainCell)
next
  case (3 x y ys)
  then show ?case by (simp add: scan_plainCell scan_comma)
qed

lemma finish_matrix:
  "\<forall>r \<in> set m. r \<noteq> [] \<and> r \<noteq> [[]] \<and> (\<forall>c \<in> set r. plainCell c) \<Longrightarrow>
     finish (scan (join [lf] (map (join [comma]) m)) (ou, [], [], False)) = ou @ m"
proof (induction m arbitrary: ou)
  case Nil
  then show ?case by (simp add: finish_def)
next
  case (Cons r m)
  then have r: "r \<noteq> []" "r \<noteq> [[]]" "\<forall>c \<in> set r. plainCell c" by auto
  have nb: "last r \<noteq> [] \<or> butlast r \<noteq> []"
    using r(1,2) by (cases r rule: rev_cases) auto
  have bl: "butlast r @ [last r] = r" using r(1) by simp
  show ?case
  proof (cases m)
    case Nil
    have "scan (join [comma] r @ []) (ou, [] , [], False) = scan [] (ou, [] @ butlast r, last r, False)"
      using r by (intro scan_row) auto
    then show ?thesis using Nil nb bl by (auto simp: finish_def)
  next
    case (Cons r' m')
    have "scan (join [comma] r @ lf # join [lf] (map (join [comma]) m)) (ou, [], [], False)
            = scan (lf # join [lf] (map (join [comma]) m)) (ou, [] @ butlast r, last r, False)"
      using r by (intro scan_row) auto
    also have "\<dots> = scan (join [lf] (map (join [comma]) m)) (ou @ [r], [], [], False)"
      using nb bl by (simp add: scan_lf)
    finally show ?thesis using Cons Cons.IH[of "ou @ [r]"] Cons.prems by simp
  qed
qed

text \<open>
  Claim C6, amended. For every matrix whose cells hold no comma, tab, double quote, carriage
  return or line feed, and whose rows are neither empty nor a single empty cell, parsing the
  comma-and-newline serialization gives the matrix back. A row that is empty or a single
  empty cell serializes to a blank line, which the parser drops by its guard on the field and
  the row: the matrix with the one row of the one empty cell parses to no row at all.
\<close>

theorem C6_round_trip:
  "\<forall>r \<in> set matrix. r \<noteq> [] \<and> r \<noteq> [[]] \<and> (\<forall>c \<in> set r. plainCell c) \<Longrightarrow>
     parseCSV (serialize matrix) = Some matrix"
  using finish_matrix[of matrix "[]"] by (simp add: parseCSV_scan serialize_def)

theorem C6_round_trip_witness:
  "parseCSV (serialize [[''a'', ''b c''], ['''', ''d'']]) = Some [[''a'', ''b c''], ['''', ''d'']]"
  using C6_round_trip[of "[[''a'', ''b c''], ['''', ''d'']]"] by (simp add: plainCell_def)

theorem C6_counterexample:
  "plainCell [] \<and> parseCSV (serialize [[[]]]) = Some [] \<and>
   parseCSV (serialize [[[]]]) \<noteq> Some [[[]]]"
  by (simp add: plainCell_def serialize_def parseCSV_scan finish_def)

section \<open>toObjects: the last of several equal headers wins\<close>








section \<open>resolveColumns: aliases and the substring fallback\<close>

lemma indexOf_None: "indexOf xs x = None \<longleftrightarrow> x \<notin> set xs"
  by (induction xs) auto

lemma indexOf_Some:
  "indexOf xs x = Some n \<Longrightarrow> n < length xs \<and> xs ! n = x \<and> (\<forall>j < n. xs ! j \<noteq> x)"
proof (induction xs arbitrary: n)
  case Nil
  then show ?case by simp
next
  case (Cons y ys)
  show ?case
  proof (cases "y = x")
    case True
    with Cons.prems show ?thesis by simp
  next
    case False
    with Cons.prems obtain m where m: "indexOf ys x = Some m" "n = Suc m" by auto
    from Cons.IH[OF m(1)] False m(2) show ?thesis by (auto simp: less_Suc_eq_0_disj)
  qed
qed


lemma aliasLoop_Some:
  "aliasLoop hdrs lh als = Some h \<Longrightarrow>
     \<exists>pre a post n. als = pre @ a # post \<and> (\<forall>b \<in> set pre. b \<notin> set lh) \<and>
        n < length lh \<and> lh ! n = a \<and> (\<forall>j < n. lh ! j \<noteq> a) \<and> h = hdrs ! n"
proof (induction als)
  case Nil
  then show ?case by simp
next
  case (Cons c rest)
  show ?case
  proof (cases "indexOf lh c")
    case None
    with Cons.prems have "aliasLoop hdrs lh rest = Some h" by simp
    from Cons.IH[OF this] obtain pre a post n where
      "rest = pre @ a # post" "\<forall>b \<in> set pre. b \<notin> set lh"
      "n < length lh" "lh ! n = a" "\<forall>j < n. lh ! j \<noteq> a" "h = hdrs ! n" by blast
    moreover have "c \<notin> set lh" using None by (simp add: indexOf_None)
    ultimately have "c # rest = (c # pre) @ a # post \<and> (\<forall>b \<in> set (c # pre). b \<notin> set lh) \<and>
        n < length lh \<and> lh ! n = a \<and> (\<forall>j < n. lh ! j \<noteq> a) \<and> h = hdrs ! n" by simp
    then show ?thesis by blast
  next
    case (Some n)
    with Cons.prems have h: "h = hdrs ! n" by simp
    from indexOf_Some[OF Some] h
    have "c # rest = [] @ c # rest \<and> (\<forall>b \<in> set []. b \<notin> set lh) \<and>
        n < length lh \<and> lh ! n = c \<and> (\<forall>j < n. lh ! j \<noteq> c) \<and> h = hdrs ! n" by simp
    then show ?thesis by blast
  qed
qed


lemma resolveColumns_role:
  "resolveColumns hdrs als k = resolveRole hdrs (map (\<lambda>h. lower (Some h)) hdrs) als k"
  by (cases k) (simp_all add: resolveColumns_def Let_def)



lemma indexOf_first:
  "n < length xs \<Longrightarrow> xs ! n = x \<Longrightarrow> \<forall>j < n. xs ! j \<noteq> x \<Longrightarrow> indexOf xs x = Some n"
proof (induction xs arbitrary: n)
  case Nil
  then show ?case by simp
next
  case (Cons y ys)
  show ?case
  proof (cases n)
    case 0
    with Cons.prems show ?thesis by simp
  next
    case (Suc m)
    with Cons.prems have "y \<noteq> x" by auto
    moreover have "indexOf ys x = Some m"
      using Cons.prems Suc by (intro Cons.IH) auto
    ultimately show ?thesis using Suc by simp
  qed
qed

lemma aliasLoop_first:
  assumes "\<forall>b \<in> set pre. b \<notin> set lh" and "n < length lh" and "lh ! n = a"
    and "\<forall>j < n. lh ! j \<noteq> a"
  shows "aliasLoop hdrs lh (pre @ a # post) = Some (hdrs ! n)"
  using assms(1)
proof (induction pre)
  case Nil
  then show ?case using indexOf_first[OF assms(2,3,4)] by simp
next
  case (Cons b pre)
  then have "indexOf lh b = None" by (simp add: indexOf_None)
  then show ?case using Cons by simp
qed

text \<open>
  What the alias loop does for every configuration: the first candidate that is, as written,
  among the lower-cased, trimmed headers binds the role to the first header with that
  lower-cased, trimmed form, and no later candidate is tried.
\<close>

lemma resolveColumns_alias_match:
  assumes "als k = pre @ a # post"
    and "\<forall>b \<in> set pre. b \<notin> set (map (\<lambda>h. lower (Some h)) hdrs)"
    and "n < length hdrs" and "lower (Some (hdrs ! n)) = a"
    and "\<forall>j < n. lower (Some (hdrs ! j)) \<noteq> a" and "hdrs ! n \<noteq> []"
  shows "resolveColumns hdrs als k = Some (hdrs ! n)"
proof -
  let ?lh = "map (\<lambda>h. lower (Some h)) hdrs"
  have "aliasLoop hdrs ?lh (pre @ a # post) = Some (hdrs ! n)"
    using assms(2,3,4,5) by (intro aliasLoop_first) auto
  then show ?thesis
    using assms(1,6) by (simp add: resolveColumns_role resolveRole_def)
qed

text \<open>
  Claim C2. The alias loop looks each candidate up among the lower-cased, trimmed headers as
  the configuration writes it: the candidate itself is neither lower-cased nor trimmed. With
  the headers \<open>Std\<close>, \<open>Section\<close>, \<open>Roll No\<close> and these very names as the aliases of the
  three roles, no candidate is found although every alias equals its header; the class and
  the division role stay \<open>null\<close>, and the roll role is bound by the substring fallback only.
  The aliases of \<open>COLUMN_ALIASES\<close> are lower-case and trimmed already, and with them the
  headers \<open>Std\<close>, \<open>Section\<close>, \<open>RollNo\<close> resolve as the claim says.
\<close>

theorem C2_alias_as_written:
  "aliasLoop [''Std'', ''Section'', ''Roll No'']
     (map (\<lambda>h. lower (Some h)) [''Std'', ''Section'', ''Roll No'']) [''Roll No''] = None \<and>
   resolveColumns [''Std'', ''Section'', ''Roll No'']
     (\<lambda>k. case k of Class \<Rightarrow> [''Std''] | Division \<Rightarrow> [''Section''] | Roll \<Rightarrow> [''Roll No''])
     Class = None \<and>
   resolveColumns [''Std'', ''Section'', ''Roll No'']
     (\<lambda>k. case k of Class \<Rightarrow> [''Std''] | Division \<Rightarrow> [''Section''] | Roll \<Rightarrow> [''Roll No''])
     Division = None \<and>
   resolveColumns [''Std'', ''Section'', ''Roll No'']
     (\<lambda>k. case k of Class \<Rightarrow> [''Std''] | Division \<Rightarrow> [''Section''] | Roll \<Rightarrow> [''Roll No''])
     Roll = Some ''Roll No'' \<and>
   resolveColumns [''Std'', ''Section'', ''RollNo''] COLUMN_ALIASES Class = Some ''Std'' \<and>
   resolveColumns [''Std'', ''Section'', ''RollNo''] COLUMN_ALIASES Division = Some ''Section'' \<and>
   resolveColumns [''Std'', ''Section'', ''RollNo''] COLUMN_ALIASES Roll = Some ''RollNo''"
  by code_simp










section \<open>uniqueSorted\<close>


















section \<open>The cascade\<close>














end
